theory Spec2Isabelle
  imports Complex_Main
begin

section \<open>Data model of \<open>inference/transnetv2.py\<close>\<close>

text \<open>
  Exceptions the controller can raise: a failed \<open>assert\<close>, an index outside an array,
  \<open>np.concatenate\<close> or \<open>np.stack\<close> rejecting its arguments, and a read of a local
  variable that was never bound.
\<close>

datatype error = AssertionError | IndexError | ValueError | UnboundLocalError

text \<open>
  A numpy array, seen along its first axis: \<open>items\<close> are the entries along axis 0 and
  \<open>shape_rest\<close> is \<open>shape[1:]\<close>, the common shape of every entry.
\<close>

record 'a ndarray =
  shape_rest :: "nat list"
  items :: "'a list"

definition len :: "'a ndarray \<Rightarrow> nat" where
  "len a = length (items a)"

definition shape :: "'a ndarray \<Rightarrow> nat list" where
  "shape a = len a # shape_rest a"

text \<open>\<open>a[np.newaxis]\<close>: a new leading axis of size one.\<close>

definition newaxis :: "'a ndarray \<Rightarrow> 'a ndarray ndarray" where
  "newaxis a = \<lparr>shape_rest = shape a, items = [a]\<rparr>"

text \<open>\<open>xs[a:b]\<close> for non-negative bounds: what lies outside the list is dropped silently.\<close>

definition py_slice :: "nat \<Rightarrow> nat \<Rightarrow> 'a list \<Rightarrow> 'a list" where
  "py_slice a b xs = take (b - a) (drop a xs)"

text \<open>
  The dictionary that \<open>emit_topic\<close> serialises and hands to the producer. The keys are
  \<open>video\<close>, \<open>start\<close>, \<open>end\<close>, \<open>score\<close> and \<open>index\<close>; the values are kept as numbers
  here, the source formats them as strings. Scores are \<open>real\<close>: only comparisons with
  the threshold are made on them.
\<close>

record SceneEvent =
  ev_video :: string
  ev_start :: int
  ev_end :: int
  ev_score :: real
  ev_index :: int

text \<open>The attributes of class \<open>TransNetV2\<close> that the emitter reads and writes.\<close>

record TransNetV2 =
  prev_scene :: int
  video_path :: string
  max_frame :: int
  scene_number :: int

text \<open>The class-level defaults: the state of a freshly constructed controller.\<close>

definition new_TransNetV2 :: TransNetV2 where
  "new_TransNetV2 = \<lparr>prev_scene = 0, video_path = [], max_frame = 0, scene_number = 1\<rparr>"

definition thresh :: real where
  "thresh = 3 / 4"

definition input_size :: "nat list" where
  "input_size = [27, 48, 3]"

section \<open>The streaming emitter\<close>

text \<open>
  Every function takes \<open>self\<close> and returns the updated \<open>self\<close> together with the
  messages it handed to the module-level producer, in order. \<open>producer.flush()\<close> has no
  effect on either and is left out.
\<close>

definition emit_topic :: "TransNetV2 \<Rightarrow> int \<Rightarrow> real \<Rightarrow> TransNetV2 \<times> SceneEvent" where
  "emit_topic self cur_frame score =
     (let dictionary = \<lparr>ev_video = video_path self, ev_start = prev_scene self,
                         ev_end = cur_frame, ev_score = score, ev_index = scene_number self\<rparr>;
          self1 = self\<lparr>scene_number := scene_number self + 1\<rparr>;
          self2 = self1\<lparr>prev_scene := cur_frame + 1\<rparr>
      in (self2, dictionary))"

text \<open>\<open>np.where(predictions > t)[0]\<close>: the positions above the threshold, ascending.\<close>

definition np_where_gt :: "real list \<Rightarrow> real \<Rightarrow> nat list" where
  "np_where_gt predictions t = filter (\<lambda>i. predictions ! i > t) [0..<length predictions]"

text \<open>The loop \<open>for i in indices[0]: self.emit_topic(gap + i, predictions[i])\<close>.\<close>

fun emit_all :: "TransNetV2 \<Rightarrow> int \<Rightarrow> real list \<Rightarrow> nat list \<Rightarrow> TransNetV2 \<times> SceneEvent list" where
  "emit_all self gap predictions [] = (self, [])"
| "emit_all self gap predictions (i # rest) =
     (case emit_topic self (gap + int i) (predictions ! i) of
        (self1, e) \<Rightarrow>
          (case emit_all self1 gap predictions rest of
             (self2, es) \<Rightarrow> (self2, e # es)))"

definition find_frames_crossing_threshold ::
  "TransNetV2 \<Rightarrow> int \<Rightarrow> real list \<Rightarrow> TransNetV2 \<times> SceneEvent list" where
  "find_frames_crossing_threshold self gap predictions =
     (let indices = np_where_gt predictions thresh
      in if length indices > 0 then emit_all self gap predictions indices else (self, []))"

section \<open>Scoring and windowing\<close>

text \<open>
  The saved model is external. It is a parameter \<open>model\<close>: for the frames of one window
  it gives the two per-frame score sequences after the sigmoid (single-frame and
  many-hot), of whatever length it chooses. \<open>predict_raw\<close> applies it to every window of
  the batch; the trailing axis of size one is not represented.
\<close>

type_synonym 'f scorer = "'f list \<Rightarrow> real list \<times> real list"

definition predict_raw ::
  "'f scorer \<Rightarrow> 'f ndarray ndarray \<Rightarrow> error + (real list list \<times> real list list)" where
  "predict_raw model frames =
     (if \<not> (length (shape frames) = 5 \<and> drop 2 (shape frames) = input_size)
      then Inl AssertionError
      else Inr (map (\<lambda>w. fst (model (items w))) (items frames),
                map (\<lambda>w. snd (model (items w))) (items frames)))"

text \<open>\<open>pred.numpy()[0, 25:75, 0]\<close>: window 0 of the batch, entries 25 to 74.\<close>

definition core :: "real list list \<Rightarrow> error + real list" where
  "core pred = (case pred of [] \<Rightarrow> Inl IndexError | w # _ \<Rightarrow> Inr (py_slice 25 75 w))"

definition no_padded_frames_start :: nat where
  "no_padded_frames_start = 25"

definition no_padded_frames_end :: "nat \<Rightarrow> int" where
  "no_padded_frames_end n =
     25 + 50 - (if int n mod 50 \<noteq> 0 then int n mod 50 else 50)"

text \<open>
  \<open>frames[0]\<close> and \<open>frames[-1]\<close> raise on an empty array. \<open>[x] * n\<close> is empty for
  \<open>n \<le> 0\<close>, which \<open>replicate (nat n)\<close> reproduces.
\<close>

definition padded_inputs :: "'f ndarray \<Rightarrow> error + 'f ndarray" where
  "padded_inputs frames =
     (case items frames of
        [] \<Rightarrow> Inl IndexError
      | f # fs \<Rightarrow>
          (let start_frame = f;
               end_frame = last (f # fs)
           in Inr \<lparr>shape_rest = shape_rest frames,
                   items = replicate no_padded_frames_start start_frame @ items frames
                           @ replicate (nat (no_padded_frames_end (len frames))) end_frame\<rparr>))"

text \<open>The \<open>while ptr + 100 <= len(padded_inputs)\<close> loop of the generator, from \<open>ptr\<close> on.\<close>

function windows_from :: "'f ndarray \<Rightarrow> nat \<Rightarrow> 'f ndarray ndarray list" where
  "windows_from padded ptr =
     (if ptr + 100 \<le> len padded
      then newaxis (padded\<lparr>items := py_slice ptr (ptr + 100) (items padded)\<rparr>)
           # windows_from padded (ptr + 50)
      else [])"
  by pat_completeness auto
termination
  by (relation "measure (\<lambda>(padded, ptr). len padded - ptr)") auto

text \<open>
  The generator does not read or write \<open>self\<close>, so the windows it yields are computed
  up front; its body, and with it a raise on an empty array, first runs when the
  \<open>for\<close> loop asks for the first window.
\<close>

definition input_iterator :: "'f ndarray \<Rightarrow> error + 'f ndarray ndarray list" where
  "input_iterator frames =
     (case padded_inputs frames of
        Inl e \<Rightarrow> Inl e
      | Inr padded \<Rightarrow> Inr (windows_from padded 0))"

section \<open>The controller\<close>

text \<open>
  The body of \<open>for inp in input_iterator()\<close>, with the list \<open>predictions\<close> built so far.
  The result carries \<open>self\<close> and the messages produced even when an exception ends
  the loop.
\<close>

fun process_windows ::
  "'f scorer \<Rightarrow> TransNetV2 \<Rightarrow> (real list \<times> real list) list \<Rightarrow> 'f ndarray ndarray list
     \<Rightarrow> TransNetV2 \<times> SceneEvent list \<times> (error + (real list \<times> real list) list)" where
  "process_windows model self predictions [] = (self, [], Inr predictions)"
| "process_windows model self predictions (inp # rest) =
     (case predict_raw model inp of
        Inl e \<Rightarrow> (self, [], Inl e)
      | Inr (single_frame_pred, all_frames_pred) \<Rightarrow>
          (case core single_frame_pred of
             Inl e \<Rightarrow> (self, [], Inl e)
           | Inr single \<Rightarrow>
               (case find_frames_crossing_threshold self (int (length predictions) * 50) single of
                  (self1, evs) \<Rightarrow>
                    (case core all_frames_pred of
                       Inl e \<Rightarrow> (self1, evs, Inl e)
                     | Inr many \<Rightarrow>
                         (case process_windows model self1 (predictions @ [(single, many)]) rest of
                            (self2, evs2, r) \<Rightarrow> (self2, evs @ evs2, r))))))"

definition predict_frames ::
  "'f scorer \<Rightarrow> TransNetV2 \<Rightarrow> 'f ndarray
     \<Rightarrow> TransNetV2 \<times> SceneEvent list \<times> (error + real list \<times> real list)" where
  "predict_frames model self frames =
     (if \<not> (length (shape frames) = 4 \<and> tl (shape frames) = input_size)
      then (self, [], Inl AssertionError)
      else
        (let self0 = self\<lparr>max_frame := int (len frames)\<rparr>
         in case input_iterator frames of
              Inl e \<Rightarrow> (self0, [], Inl e)
            | Inr windows \<Rightarrow>
                (case process_windows model self0 [] windows of
                   (self1, evs, Inl e) \<Rightarrow> (self1, evs, Inl e)
                 | (self1, evs, Inr predictions) \<Rightarrow>
                     (case emit_topic self1 (max_frame self1 + 1) 1 of
                        (self2, e) \<Rightarrow>
                          if predictions = [] then (self2, evs @ [e], Inl ValueError)
                          else (self2, evs @ [e],
                                Inr (take (len frames) (concat (map fst predictions)),
                                     take (len frames) (concat (map snd predictions))))))))"

text \<open>
  The decoder (ffmpeg) is external: \<open>decode\<close> gives the frames of a file, which
  \<open>reshape([-1, 27, 48, 3])\<close> lays out along axis 0.
\<close>

definition predict_video ::
  "'f scorer \<Rightarrow> (string \<Rightarrow> 'f list) \<Rightarrow> TransNetV2 \<Rightarrow> string
     \<Rightarrow> TransNetV2 \<times> SceneEvent list \<times> (error + real list \<times> real list)" where
  "predict_video model decode self video_fn =
     (let self1 = self\<lparr>video_path := video_fn\<rparr>;
          video = \<lparr>shape_rest = [27, 48, 3], items = decode video_fn\<rparr>
      in predict_frames model self1 video)"

section \<open>The scene extractor\<close>

text \<open>
  The local variables of \<open>predictions_to_scenes\<close>. \<open>i\<close> is unbound until the loop
  has run once.
\<close>

record scan =
  sc_t :: int
  sc_t_prev :: int
  sc_start :: int
  sc_i :: "int option"
  sc_scenes :: "(int \<times> int) list"

definition binarize :: "real list \<Rightarrow> real \<Rightarrow> int list" where
  "binarize predictions threshold = map (\<lambda>p. if p > threshold then 1 else 0) predictions"

definition scan_step :: "scan \<Rightarrow> nat \<times> int \<Rightarrow> scan" where
  "scan_step s it =
     (case it of (i, t) \<Rightarrow>
        (let start = (if sc_t_prev s = 1 \<and> t = 0 then int i else sc_start s);
             scenes = (if sc_t_prev s = 0 \<and> t = 1 \<and> i \<noteq> 0
                       then sc_scenes s @ [(start, int i)] else sc_scenes s)
         in \<lparr>sc_t = t, sc_t_prev = t, sc_start = start, sc_i = Some (int i),
             sc_scenes = scenes\<rparr>))"

definition scan_init :: scan where
  "scan_init = \<lparr>sc_t = - 1, sc_t_prev = 0, sc_start = 0, sc_i = None, sc_scenes = []\<rparr>"

definition predictions_to_scenes :: "real list \<Rightarrow> real \<Rightarrow> error + (int \<times> int) list" where
  "predictions_to_scenes predictions threshold =
     (let bits = binarize predictions threshold;
          s = foldl scan_step scan_init (enumerate 0 bits)
      in case (if sc_t s = 0
               then (case sc_i s of
                       None \<Rightarrow> Inl UnboundLocalError
                     | Some i \<Rightarrow> Inr (sc_scenes s @ [(sc_start s, i)]))
               else Inr (sc_scenes s)) of
           Inl e \<Rightarrow> Inl e
         | Inr scenes \<Rightarrow>
             if length scenes = 0 then Inr [(0, int (length bits) - 1)]
             else Inr scenes)"

section \<open>The command line driver\<close>

text \<open>
  \<open>main\<close> builds one controller and feeds it every file in turn. For each file the
  model records the messages produced and either what was written to the two text files
  or the exception that ended the program.
\<close>

fun main_loop ::
  "'f scorer \<Rightarrow> (string \<Rightarrow> 'f list) \<Rightarrow> TransNetV2 \<Rightarrow> string list
     \<Rightarrow> (string \<times> SceneEvent list \<times> (error + (real \<times> real) list \<times> (int \<times> int) list)) list" where
  "main_loop model decode self [] = []"
| "main_loop model decode self (file # files) =
     (case predict_video model decode self file of
        (self1, evs, Inl e) \<Rightarrow> [(file, evs, Inl e)]
      | (self1, evs, Inr (single_frame_predictions, all_frame_predictions)) \<Rightarrow>
          if length single_frame_predictions \<noteq> length all_frame_predictions
          then [(file, evs, Inl ValueError)]
          else
            (case predictions_to_scenes single_frame_predictions thresh of
               Inl e \<Rightarrow> [(file, evs, Inl e)]
             | Inr scenes \<Rightarrow>
                 (file, evs, Inr (zip single_frame_predictions all_frame_predictions, scenes))
                 # main_loop model decode self1 files))"

definition main :: "'f scorer \<Rightarrow> (string \<Rightarrow> 'f list) \<Rightarrow> string list
     \<Rightarrow> (string \<times> SceneEvent list \<times> (error + (real \<times> real) list \<times> (int \<times> int) list)) list" where
  "main model decode files = main_loop model decode new_TransNetV2 files"

section \<open>Notions used in the statements\<close>

text \<open>
  \<open>chained p n evs\<close>: the messages \<open>evs\<close> continue one another, the first starting at
  cursor \<open>p\<close> with index \<open>n\<close>. \<open>cursor_after p evs\<close> is the cursor they leave behind.
  \<open>emits self self' evs\<close> sums up a run of the emitter from \<open>self\<close> to \<open>self'\<close>.
\<close>

fun chained :: "int \<Rightarrow> int \<Rightarrow> SceneEvent list \<Rightarrow> bool" where
  "chained p n [] = True"
| "chained p n (e # es) = (ev_start e = p \<and> ev_index e = n \<and> chained (ev_end e + 1) (n + 1) es)"

definition cursor_after :: "int \<Rightarrow> SceneEvent list \<Rightarrow> int" where
  "cursor_after p evs = (if evs = [] then p else ev_end (last evs) + 1)"

definition emits :: "TransNetV2 \<Rightarrow> TransNetV2 \<Rightarrow> SceneEvent list \<Rightarrow> bool" where
  "emits self self' evs =
     (chained (prev_scene self) (scene_number self) evs \<and>
      prev_scene self' = cursor_after (prev_scene self) evs \<and>
      scene_number self' = scene_number self + int (length evs) \<and>
      video_path self' = video_path self \<and>
      max_frame self' = max_frame self)"

text \<open>
  A window as the generator yields it: one block of 100 frames of the expected size.
  \<open>core_of\<close> is the pair of core slices the controller keeps for such a window.
\<close>

definition good_window :: "'f ndarray ndarray \<Rightarrow> bool" where
  "good_window w = (shape_rest w = 100 # input_size \<and>
                    (case items w of [a] \<Rightarrow> length (items a) = 100 | _ \<Rightarrow> False))"

definition core_of :: "'f scorer \<Rightarrow> 'f ndarray ndarray \<Rightarrow> real list \<times> real list" where
  "core_of model w =
     (py_slice 25 75 (fst (model (items (hd (items w))))),
      py_slice 25 75 (snd (model (items (hd (items w))))))"

text \<open>
  For the scene extractor: \<open>in_scene scenes k\<close> says that index \<open>k\<close> lies in one of the
  intervals; \<open>kept bits k\<close> says that frame \<open>k\<close> is not a boundary or directly follows
  a frame that is not; \<open>scan_inv xs s\<close> is what holds of the local variables \<open>s\<close> once
  the scan has read the binarised prefix \<open>xs\<close>.
\<close>

definition in_scene :: "(int \<times> int) list \<Rightarrow> nat \<Rightarrow> bool" where
  "in_scene scenes k = (\<exists>(a, b) \<in> set scenes. a \<le> int k \<and> int k \<le> b)"

definition kept :: "int list \<Rightarrow> nat \<Rightarrow> bool" where
  "kept bits k = (k < length bits \<and> (bits ! k = 0 \<or> (0 < k \<and> bits ! (k - 1) = 0)))"

definition scan_inv :: "int list \<Rightarrow> scan \<Rightarrow> bool" where
  "scan_inv xs s =
     (sc_t_prev s = (if xs = [] then 0 else last xs) \<and>
      sc_t s = (if xs = [] then - 1 else last xs) \<and>
      sc_i s = (if xs = [] then None else Some (int (length xs) - 1)) \<and>
      0 \<le> sc_start s \<and>
      (sc_t_prev s = 0 \<longrightarrow>
         sc_start s \<le> int (length xs) \<and> (xs \<noteq> [] \<longrightarrow> sc_start s < int (length xs))) \<and>
      (\<forall>(a, b) \<in> set (sc_scenes s). 0 \<le> a \<and> a \<le> b \<and> b < int (length xs)) \<and>
      (sc_t_prev s = 0 \<longrightarrow> (\<forall>(a, b) \<in> set (sc_scenes s). b < sc_start s)) \<and>
      sorted_wrt (\<lambda>p q. snd p < fst q) (sc_scenes s) \<and>
      (\<forall>k. (in_scene (sc_scenes s) k \<or>
              (sc_t_prev s = 0 \<and> sc_start s \<le> int k \<and> k < length xs)) = kept xs k))"

text \<open>Concrete inputs: scorers that answer every window alike, and small videos.\<close>

definition silent_model :: "nat scorer" where
  "silent_model = (\<lambda>w. (replicate 100 0, replicate 100 0))"

definition short_model :: "nat scorer" where
  "short_model = (\<lambda>w. (replicate 10 0, replicate 10 0))"

definition one_frame_video :: "nat ndarray" where
  "one_frame_video = \<lparr>shape_rest = [27, 48, 3], items = [0]\<rparr>"

definition fifty_frames_video :: "nat ndarray" where
  "fifty_frames_video = \<lparr>shape_rest = [27, 48, 3], items = [0..<50]\<rparr>"

definition one_frame_decoder :: "string \<Rightarrow> nat list" where
  "one_frame_decoder = (\<lambda>video_fn. [0])"

definition spike_model :: "nat scorer" where
  "spike_model = (\<lambda>w. (replicate 30 0 @ [9 / 10] @ replicate 69 0, replicate 100 0))"

definition ten_frames_video :: "nat ndarray" where
  "ten_frames_video = \<lparr>shape_rest = [27, 48, 3], items = [0..<10]\<rparr>"

section \<open>The emitter: cursor and counter\<close>

lemma cursor_after_Cons: "cursor_after p (e # es) = cursor_after (ev_end e + 1) es"
  by (simp add: cursor_after_def)

lemma chained_append:
  "chained p n (xs @ ys) =
     (chained p n xs \<and> chained (cursor_after p xs) (n + int (length xs)) ys)"
proof (induction xs arbitrary: p n)
  case Nil
  show ?case by (simp add: cursor_after_def)
next
  case (Cons e es)
  show ?case
    by (simp add: Cons.IH cursor_after_Cons add.assoc)
qed

lemma cursor_after_append:
  "cursor_after p (xs @ ys) = cursor_after (cursor_after p xs) ys"
  by (simp add: cursor_after_def)

lemma emits_refl: "emits self self []"
  by (simp add: emits_def cursor_after_def)

lemma emits_trans:
  "emits a b xs \<Longrightarrow> emits b c ys \<Longrightarrow> emits a c (xs @ ys)"
  by (simp add: emits_def chained_append cursor_after_append)

lemma emit_topic_emits:
  "emit_topic self cur score = (self', e) \<Longrightarrow> emits self self' [e]"
  by (auto simp: emit_topic_def emits_def cursor_after_def Let_def)

lemma emit_topic_event:
  "emit_topic self cur score = (self', e) \<Longrightarrow>
     ev_end e = cur \<and> ev_score e = score \<and> ev_video e = video_path self"
  by (auto simp: emit_topic_def Let_def)

lemma emit_all_emits:
  "emit_all self gap preds idxs = (self', evs) \<Longrightarrow> emits self self' evs"
proof (induction idxs arbitrary: self self' evs)
  case Nil
  then show ?case by (simp add: emits_refl)
next
  case (Cons i rest)
  obtain s1 e where a: "emit_topic self (gap + int i) (preds ! i) = (s1, e)"
    by (cases "emit_topic self (gap + int i) (preds ! i)")
  obtain s2 es where b: "emit_all s1 gap preds rest = (s2, es)"
    by (cases "emit_all s1 gap preds rest")
  from Cons.prems a b have eq: "self' = s2" "evs = e # es" by simp_all
  from emits_trans [OF emit_topic_emits [OF a] Cons.IH [OF b]] eq
  show ?case by simp
qed

lemma emit_all_events:
  "emit_all self gap preds idxs = (self', evs) \<Longrightarrow>
     map ev_end evs = map (\<lambda>i. gap + int i) idxs \<and>
     map ev_score evs = map (\<lambda>i. preds ! i) idxs"
proof (induction idxs arbitrary: self self' evs)
  case Nil
  then show ?case by simp
next
  case (Cons i rest)
  obtain s1 e where a: "emit_topic self (gap + int i) (preds ! i) = (s1, e)"
    by (cases "emit_topic self (gap + int i) (preds ! i)")
  obtain s2 es where b: "emit_all s1 gap preds rest = (s2, es)"
    by (cases "emit_all s1 gap preds rest")
  from Cons.prems a b have eq: "evs = e # es" by simp
  from Cons.IH [OF b] emit_topic_event [OF a] eq show ?case by simp
qed

lemma find_frames_emits:
  "find_frames_crossing_threshold self gap preds = (self', evs) \<Longrightarrow> emits self self' evs"
  by (auto simp: find_frames_crossing_threshold_def Let_def emits_refl
           split: if_splits dest: emit_all_emits)

lemma find_frames_events:
  assumes "find_frames_crossing_threshold self gap preds = (self', evs)"
  shows "map ev_end evs = map (\<lambda>i. gap + int i) (np_where_gt preds thresh)"
    and "map ev_score evs = map (\<lambda>i. preds ! i) (np_where_gt preds thresh)"
  using assms
  by (auto simp: find_frames_crossing_threshold_def Let_def
           split: if_splits dest: emit_all_events)

lemma find_frames_bounds:
  assumes "find_frames_crossing_threshold self gap preds = (self', evs)"
      and "e \<in> set evs"
  shows "gap \<le> ev_end e \<and> ev_end e < gap + int (length preds) \<and> thresh < ev_score e"
proof -
  from assms(2) obtain k where k: "k < length evs" "evs ! k = e"
    by (auto simp: in_set_conv_nth)
  let ?is = "np_where_gt preds thresh"
  from find_frames_events [OF assms(1)]
  have m: "map ev_end evs = map (\<lambda>i. gap + int i) ?is" "map ev_score evs = map (\<lambda>i. preds ! i) ?is"
    by simp_all
  from m(1) have l: "length ?is = length evs" by (metis length_map)
  from m(1) k l have e1: "ev_end e = gap + int (?is ! k)"
    by (metis nth_map)
  from m(2) k l have e2: "ev_score e = preds ! (?is ! k)"
    by (metis nth_map)
  from k l have "?is ! k \<in> set ?is" by simp
  then have "?is ! k < length preds \<and> thresh < preds ! (?is ! k)"
    by (simp add: np_where_gt_def)
  with e1 e2 show ?thesis by simp
qed

section \<open>Padding and windows\<close>

declare windows_from.simps [simp del]

lemma pad_arith:
  fixes n :: nat
  assumes "0 < n"
  shows "25 + n + (if n mod 50 \<noteq> 0 then 25 + (50 - n mod 50) else 25) = 100 + 50 * ((n - 1) div 50)"
proof -
  obtain m where m: "n = Suc m" using assms by (cases n) auto
  have d: "m - m mod 50 = 50 * (m div 50)" by (simp add: minus_mod_eq_mult_div)
  have le: "m mod 50 \<le> m" by simp
  have r: "m mod 50 < 50" by simp
  show ?thesis
  proof (cases "m mod 50 = 49")
    case True
    then have "Suc m mod 50 = 0" by (simp add: mod_Suc)
    with True d le show ?thesis unfolding m by simp
  next
    case False
    then have s: "Suc m mod 50 = Suc (m mod 50)" by (simp add: mod_Suc)
    from r False have "Suc (m mod 50) < 50" by linarith
    with s d le show ?thesis unfolding m by simp
  qed
qed

lemma win_arith:
  fixes l p :: nat
  assumes "p + 100 \<le> l"
  shows "Suc (if p + 50 + 100 \<le> l then (l - (p + 50 + 100)) div 50 + 1 else 0) = (l - (p + 100)) div 50 + 1"
proof (cases "p + 50 + 100 \<le> l")
  case True
  then have "l - (p + 100) = (l - (p + 50 + 100)) + 50" by simp
  then have "(l - (p + 100)) div 50 = (l - (p + 50 + 100)) div 50 + 1" by simp
  with True show ?thesis by simp
next
  case False
  with assms have "l - (p + 100) < 50" by simp
  then have "(l - (p + 100)) div 50 = 0" by simp
  with False show ?thesis by simp
qed

lemma no_padded_frames_end_cases:
  "nat (no_padded_frames_end n) = (if n mod 50 \<noteq> 0 then 25 + (50 - n mod 50) else 25)"
proof -
  have "int n mod 50 = int (n mod 50)" by (simp add: zmod_int)
  moreover have "n mod 50 < 50" by simp
  ultimately show ?thesis
    unfolding no_padded_frames_end_def by (auto simp: nat_diff_distrib' nat_add_distrib)
qed

lemma padded_inputs_items:
  assumes "items frames \<noteq> []"
  shows "padded_inputs frames =
           Inr \<lparr>shape_rest = shape_rest frames,
                items = replicate 25 (hd (items frames)) @ items frames
                        @ replicate (nat (no_padded_frames_end (len frames))) (last (items frames))\<rparr>"
  using assms
  by (cases "items frames") (simp_all add: padded_inputs_def no_padded_frames_start_def)

lemma len_padded:
  assumes "items frames \<noteq> []" and "padded_inputs frames = Inr padded"
  shows "len padded = 100 + 50 * ((len frames - 1) div 50)"
    and "shape_rest padded = shape_rest frames"
proof -
  let ?n = "len frames"
  from assms(1) have pos: "0 < ?n" by (simp add: len_def)
  from assms padded_inputs_items [OF assms(1)]
  have "len padded = 25 + ?n + nat (no_padded_frames_end ?n)"
    and sr: "shape_rest padded = shape_rest frames"
    by (auto simp: len_def)
  then have l: "len padded = 25 + ?n + (if ?n mod 50 \<noteq> 0 then 25 + (50 - ?n mod 50) else 25)"
    by (simp only: no_padded_frames_end_cases)
  from pad_arith [OF pos] show "len padded = 100 + 50 * ((?n - 1) div 50)"
    unfolding l by simp
  from sr show "shape_rest padded = shape_rest frames" .
qed

lemma windows_from_good:
  "shape_rest padded = input_size \<Longrightarrow> w \<in> set (windows_from padded ptr) \<Longrightarrow> good_window w"
proof (induction padded ptr rule: windows_from.induct)
  case (1 padded ptr)
  show ?case
  proof (cases "ptr + 100 \<le> len padded")
    case True
    with "1.prems"(2)
    have "w = newaxis (padded\<lparr>items := py_slice ptr (ptr + 100) (items padded)\<rparr>)
          \<or> w \<in> set (windows_from padded (ptr + 50))"
      by (subst (asm) windows_from.simps) simp
    then show ?thesis
    proof
      assume "w = newaxis (padded\<lparr>items := py_slice ptr (ptr + 100) (items padded)\<rparr>)"
      with True "1.prems"(1) show ?thesis
        by (simp add: good_window_def newaxis_def shape_def len_def py_slice_def)
    next
      assume "w \<in> set (windows_from padded (ptr + 50))"
      with "1.IH" [OF True "1.prems"(1)] show ?thesis .
    qed
  next
    case False
    with "1.prems"(2) show ?thesis
      by (subst (asm) windows_from.simps) simp
  qed
qed

lemma length_windows_from:
  "length (windows_from padded ptr) =
     (if ptr + 100 \<le> len padded then (len padded - (ptr + 100)) div 50 + 1 else 0)"
proof (induction padded ptr rule: windows_from.induct)
  case (1 padded ptr)
  show ?case
  proof (cases "ptr + 100 \<le> len padded")
    case True
    have "length (windows_from padded ptr) = Suc (length (windows_from padded (ptr + 50)))"
      using True by (subst windows_from.simps) simp
    also have "\<dots> = Suc (if ptr + 50 + 100 \<le> len padded
                          then (len padded - (ptr + 50 + 100)) div 50 + 1 else 0)"
      using "1.IH" [OF True] by simp
    also have "\<dots> = (len padded - (ptr + 100)) div 50 + 1"
      using win_arith [OF True] by simp
    finally show ?thesis using True by simp
  next
    case False
    then show ?thesis by (subst windows_from.simps) simp
  qed
qed

lemma input_iterator_ok:
  assumes "items frames \<noteq> []" and "shape_rest frames = input_size"
  shows "\<exists>ws. input_iterator frames = Inr ws \<and> length ws = (len frames - 1) div 50 + 1
              \<and> (\<forall>w \<in> set ws. good_window w)"
proof -
  from padded_inputs_items [OF assms(1)] obtain padded
    where p: "padded_inputs frames = Inr padded" by blast
  note lp = len_padded [OF assms(1) p]
  have "length (windows_from padded 0) = (len frames - 1) div 50 + 1"
    by (simp add: length_windows_from lp(1))
  moreover have "\<forall>w \<in> set (windows_from padded 0). good_window w"
    using windows_from_good lp(2) assms(2) by metis
  ultimately show ?thesis by (simp add: input_iterator_def p)
qed

lemma predict_raw_good:
  "good_window w \<Longrightarrow>
     predict_raw model w = Inr ([fst (model (items (hd (items w))))],
                                [snd (model (items (hd (items w))))])"
  by (auto simp: good_window_def predict_raw_def shape_def input_size_def len_def
           split: list.splits)

lemma process_windows_result:
  "\<forall>w \<in> set ws. good_window w \<Longrightarrow>
     snd (snd (process_windows model self preds ws)) = Inr (preds @ map (core_of model) ws)"
proof (induction ws arbitrary: self preds)
  case Nil
  show ?case by simp
next
  case (Cons w ws)
  from Cons.prems have g: "good_window w" and rest: "\<forall>w \<in> set ws. good_window w" by simp_all
  let ?single = "py_slice 25 75 (fst (model (items (hd (items w)))))"
  let ?many = "py_slice 25 75 (snd (model (items (hd (items w)))))"
  obtain s1 evs where f:
    "find_frames_crossing_threshold self (int (length preds) * 50) ?single = (s1, evs)"
    by (cases "find_frames_crossing_threshold self (int (length preds) * 50) ?single")
  obtain s2 evs2 r where p:
    "process_windows model s1 (preds @ [(?single, ?many)]) ws = (s2, evs2, r)"
    by (cases "process_windows model s1 (preds @ [(?single, ?many)]) ws")
  from Cons.IH [OF rest, of s1 "preds @ [(?single, ?many)]"] p
  have "r = Inr (preds @ map (core_of model) (w # ws))"
    by (simp add: core_of_def)
  then show ?case
    by (simp add: predict_raw_good [OF g] core_def f p)
qed

section \<open>The window loop and the controller\<close>

lemma core_length: "core pred = Inr s \<Longrightarrow> length s \<le> 50"
  by (auto simp: core_def py_slice_def split: list.splits)

lemma process_windows_emits:
  "process_windows model self preds ws = (self', evs, r) \<Longrightarrow> emits self self' evs"
proof (induction ws arbitrary: self preds self' evs r)
  case Nil
  then show ?case by (simp add: emits_refl)
next
  case (Cons w ws)
  show ?case
  proof (cases "predict_raw model w")
    case (Inl err)
    with Cons.prems show ?thesis by (simp add: emits_refl)
  next
    case (Inr pr)
    obtain sp ap where pr: "pr = (sp, ap)" by (cases pr)
    show ?thesis
    proof (cases "core sp")
      case (Inl err)
      with Cons.prems Inr pr show ?thesis by (simp add: emits_refl)
    next
      case single: (Inr single)
      obtain s1 evs1 where f:
        "find_frames_crossing_threshold self (int (length preds) * 50) single = (s1, evs1)"
        by (cases "find_frames_crossing_threshold self (int (length preds) * 50) single")
      note e1 = find_frames_emits [OF f]
      show ?thesis
      proof (cases "core ap")
        case (Inl err)
        with Cons.prems Inr pr single f e1 show ?thesis by simp
      next
        case many: (Inr many)
        obtain s2 evs2 r2 where p:
          "process_windows model s1 (preds @ [(single, many)]) ws = (s2, evs2, r2)"
          by (cases "process_windows model s1 (preds @ [(single, many)]) ws")
        from Cons.prems Inr pr single f many p
        have eq: "self' = s2" "evs = evs1 @ evs2" by simp_all
        from emits_trans [OF e1 Cons.IH [OF p]] eq show ?thesis by simp
      qed
    qed
  qed
qed

lemma process_windows_bounds:
  "process_windows model self preds ws = (self', evs, r) \<Longrightarrow> e \<in> set evs \<Longrightarrow>
     int (length preds) * 50 \<le> ev_end e \<and>
     ev_end e < (int (length preds) + int (length ws)) * 50 \<and>
     thresh < ev_score e"
proof (induction ws arbitrary: self preds self' evs r)
  case Nil
  then show ?case by simp
next
  case (Cons w ws)
  show ?case
  proof (cases "predict_raw model w")
    case (Inl err)
    with Cons.prems show ?thesis by simp
  next
    case (Inr pr)
    obtain sp ap where pr: "pr = (sp, ap)" by (cases pr)
    show ?thesis
    proof (cases "core sp")
      case (Inl err)
      with Cons.prems Inr pr show ?thesis by simp
    next
      case single: (Inr single)
      obtain s1 evs1 where f:
        "find_frames_crossing_threshold self (int (length preds) * 50) single = (s1, evs1)"
        by (cases "find_frames_crossing_threshold self (int (length preds) * 50) single")
      have b1: "int (length preds) * 50 \<le> ev_end x \<and>
                ev_end x < (int (length preds) + int (length (w # ws))) * 50 \<and>
                thresh < ev_score x" if "x \<in> set evs1" for x
        using find_frames_bounds [OF f that] core_length [OF single] by simp
      show ?thesis
      proof (cases "core ap")
        case (Inl err)
        with Cons.prems Inr pr single f have "evs = evs1" by simp
        with Cons.prems(2) b1 show ?thesis by simp
      next
        case many: (Inr many)
        obtain s2 evs2 r2 where p:
          "process_windows model s1 (preds @ [(single, many)]) ws = (s2, evs2, r2)"
          by (cases "process_windows model s1 (preds @ [(single, many)]) ws")
        from Cons.prems(1) Inr pr single f many p
        have eq: "evs = evs1 @ evs2" by simp
        with Cons.prems(2) consider "e \<in> set evs1" | "e \<in> set evs2" by auto
        then show ?thesis
        proof cases
          case 1
          with b1 show ?thesis by simp
        next
          case 2
          from Cons.IH [OF p 2] show ?thesis by simp
        qed
      qed
    qed
  qed
qed

lemma process_windows_good:
  assumes "\<forall>w \<in> set ws. good_window w"
  obtains self' evs where
    "process_windows model self preds ws = (self', evs, Inr (preds @ map (core_of model) ws))"
proof -
  obtain self' evs r where p: "process_windows model self preds ws = (self', evs, r)"
    by (cases "process_windows model self preds ws")
  with process_windows_result [OF assms, of model self preds]
  have "r = Inr (preds @ map (core_of model) ws)" by simp
  with p that show ?thesis by simp
qed

lemma predict_frames_run:
  assumes ne: "items frames \<noteq> []" and sh: "shape_rest frames = input_size"
  obtains ws self1 evs self2 e where
    "input_iterator frames = Inr ws"
    "length ws = (len frames - 1) div 50 + 1"
    "\<forall>w \<in> set ws. good_window w"
    "process_windows model (self\<lparr>max_frame := int (len frames)\<rparr>) [] ws =
       (self1, evs, Inr (map (core_of model) ws))"
    "emit_topic self1 (int (len frames) + 1) 1 = (self2, e)"
    "predict_frames model self frames =
       (self2, evs @ [e],
        Inr (take (len frames) (concat (map (\<lambda>w. fst (core_of model w)) ws)),
             take (len frames) (concat (map (\<lambda>w. snd (core_of model w)) ws))))"
proof -
  from input_iterator_ok [OF ne sh] obtain ws where
    it: "input_iterator frames = Inr ws" and
    lw: "length ws = (len frames - 1) div 50 + 1" and
    gw: "\<forall>w \<in> set ws. good_window w" by blast
  let ?self0 = "self\<lparr>max_frame := int (len frames)\<rparr>"
  from process_windows_good [OF gw, of model ?self0 "[]"] obtain self1 evs where
    pw: "process_windows model ?self0 [] ws = (self1, evs, Inr (map (core_of model) ws))"
    by auto
  from process_windows_emits [OF pw] have mf: "max_frame self1 = int (len frames)"
    by (simp add: emits_def)
  obtain self2 e where et: "emit_topic self1 (int (len frames) + 1) 1 = (self2, e)"
    by (cases "emit_topic self1 (int (len frames) + 1) 1")
  from lw have wne: "ws \<noteq> []" by auto
  have "predict_frames model self frames =
       (self2, evs @ [e],
        Inr (take (len frames) (concat (map (\<lambda>w. fst (core_of model w)) ws)),
             take (len frames) (concat (map (\<lambda>w. snd (core_of model w)) ws))))"
    using sh wne
    by (simp add: predict_frames_def shape_def input_size_def it pw mf et Let_def comp_def)
  with it lw gw pw et that show ?thesis by blast
qed

section \<open>Length of the stitched predictions and the final message\<close>

lemma length_concat_const:
  "\<forall>x \<in> set xs. length (f x) = c \<Longrightarrow> length (concat (map f xs)) = c * length xs"
  by (induction xs) simp_all

lemma core_of_length:
  assumes "good_window w"
      and "\<forall>fs. length fs = 100 \<longrightarrow> length (fst (model fs)) = 100 \<and> length (snd (model fs)) = 100"
  shows "length (fst (core_of model w)) = 50" and "length (snd (core_of model w)) = 50"
proof -
  from assms(1) have "length (items (hd (items w))) = 100"
    by (auto simp: good_window_def split: list.splits)
  with assms(2) have "length (fst (model (items (hd (items w))))) = 100"
    "length (snd (model (items (hd (items w))))) = 100" by simp_all
  then show "length (fst (core_of model w)) = 50" "length (snd (core_of model w)) = 50"
    by (simp_all add: core_of_def py_slice_def)
qed

lemma frames_le_cores:
  fixes n :: nat
  shows "n \<le> 50 * ((n - 1) div 50 + 1)"
proof -
  define q where "q = (n - 1) div 50"
  define r where "r = (n - 1) mod 50"
  have "n - 1 = 50 * q + r" unfolding q_def r_def by simp
  moreover have "r < 50" unfolding r_def by simp
  ultimately have "n \<le> 50 * (q + 1)" by arith
  then show ?thesis unfolding q_def .
qed

text \<open>
  Claim C1. For a video of \<open>N \<ge> 1\<close> frames of the expected size, and a scorer that
  answers every window of 100 frames with 100 scores of each kind, \<open>predict_frames\<close>
  returns, and both sequences it returns have exactly \<open>N\<close> entries.
\<close>

theorem predict_frames_lengths:
  assumes "1 \<le> len frames"
      and "shape_rest frames = [27, 48, 3]"
      and "\<forall>fs. length fs = 100 \<longrightarrow> length (fst (model fs)) = 100 \<and> length (snd (model fs)) = 100"
  shows "\<exists>self' evs single many.
           predict_frames model self frames = (self', evs, Inr (single, many)) \<and>
           length single = len frames \<and> length many = len frames"
proof -
  from assms(1) have ne: "items frames \<noteq> []" by (auto simp: len_def)
  from assms(2) have sh: "shape_rest frames = input_size" by (simp add: input_size_def)
  from predict_frames_run [OF ne sh, of model self] obtain ws self1 evs self2 e where
    lw: "length ws = (len frames - 1) div 50 + 1" and
    gw: "\<forall>w \<in> set ws. good_window w" and
    pf: "predict_frames model self frames =
       (self2, evs @ [e],
        Inr (take (len frames) (concat (map (\<lambda>w. fst (core_of model w)) ws)),
             take (len frames) (concat (map (\<lambda>w. snd (core_of model w)) ws))))"
    by metis
  have l1: "length (concat (map (\<lambda>w. fst (core_of model w)) ws)) = 50 * length ws"
    by (rule length_concat_const) (use gw core_of_length(1) [OF _ assms(3)] in blast)
  have l2: "length (concat (map (\<lambda>w. snd (core_of model w)) ws)) = 50 * length ws"
    by (rule length_concat_const) (use gw core_of_length(2) [OF _ assms(3)] in blast)
  have "len frames \<le> 50 * length ws" unfolding lw by (rule frames_le_cores)
  with l1 l2 pf show ?thesis by simp
qed

theorem predict_frames_lengths_witness:
  "\<exists>self' evs single many.
     predict_frames silent_model new_TransNetV2 one_frame_video = (self', evs, Inr (single, many)) \<and>
     length single = len one_frame_video \<and> length many = len one_frame_video"
  using predict_frames_lengths [of one_frame_video silent_model new_TransNetV2]
  by (simp add: one_frame_video_def silent_model_def len_def)

text \<open>
  Claim C2. Whatever the scorer answers, the messages of a video of \<open>N \<ge> 1\<close> frames
  are those of the window loop followed by exactly one more, whose end is
  \<open>max_frame + 1\<close> with \<open>max_frame = N\<close> and whose score is 1.
\<close>

theorem final_event_emitted:
  assumes "1 \<le> len frames" and "shape_rest frames = [27, 48, 3]"
  shows "\<exists>ws self1 evs r1 self2 e r.
           input_iterator frames = Inr ws \<and>
           process_windows model (self\<lparr>max_frame := int (len frames)\<rparr>) [] ws = (self1, evs, r1) \<and>
           predict_frames model self frames = (self2, evs @ [e], r) \<and>
           max_frame self2 = int (len frames) \<and>
           ev_end e = max_frame self2 + 1 \<and> ev_score e = 1"
proof -
  from assms(1) have ne: "items frames \<noteq> []" by (auto simp: len_def)
  from assms(2) have sh: "shape_rest frames = input_size" by (simp add: input_size_def)
  from predict_frames_run [OF ne sh, of model self] obtain ws self1 evs self2 e r where
    it: "input_iterator frames = Inr ws" and
    pw: "process_windows model (self\<lparr>max_frame := int (len frames)\<rparr>) [] ws =
          (self1, evs, Inr (map (core_of model) ws))" and
    et: "emit_topic self1 (int (len frames) + 1) 1 = (self2, e)" and
    pf: "predict_frames model self frames = (self2, evs @ [e], r)"
    by metis
  from process_windows_emits [OF pw] have "max_frame self1 = int (len frames)"
    by (simp add: emits_def)
  with emit_topic_emits [OF et] have mf: "max_frame self2 = int (len frames)"
    by (simp add: emits_def)
  from emit_topic_event [OF et] have "ev_end e = int (len frames) + 1" "ev_score e = 1"
    by simp_all
  with it pw pf mf show ?thesis by auto
qed

theorem final_event_emitted_witness:
  "\<exists>ws self1 evs r1 self2 e r.
     input_iterator one_frame_video = Inr ws \<and>
     process_windows silent_model (new_TransNetV2\<lparr>max_frame := int (len one_frame_video)\<rparr>) [] ws
       = (self1, evs, r1) \<and>
     predict_frames silent_model new_TransNetV2 one_frame_video = (self2, evs @ [e], r) \<and>
     max_frame self2 = int (len one_frame_video) \<and>
     ev_end e = max_frame self2 + 1 \<and> ev_score e = 1"
  using final_event_emitted [of one_frame_video silent_model new_TransNetV2]
  by (simp add: one_frame_video_def len_def)

section \<open>Padding\<close>

text \<open>
  Claim C5, as amended. For \<open>N \<ge> 1\<close> frames the padded sequence is 25 copies of the
  first frame, the frames, and copies of the last frame: \<open>25 + (50 - N mod 50)\<close> of them
  when \<open>N mod 50 \<noteq> 0\<close> and 25 of them when \<open>N mod 50 = 0\<close>.
\<close>

theorem padding_counts:
  assumes "1 \<le> len frames"
  shows "padded_inputs frames =
           Inr \<lparr>shape_rest = shape_rest frames,
                items = replicate 25 (hd (items frames)) @ items frames
                        @ replicate (if len frames mod 50 \<noteq> 0 then 25 + (50 - len frames mod 50)
                                     else 25)
                            (last (items frames))\<rparr>"
proof -
  from assms have ne: "items frames \<noteq> []" by (auto simp: len_def)
  show ?thesis
    unfolding padded_inputs_items [OF ne] no_padded_frames_end_cases by simp
qed

theorem padding_counts_witness:
  "padded_inputs fifty_frames_video =
     Inr \<lparr>shape_rest = [27, 48, 3],
          items = replicate 25 0 @ [0..<50] @ replicate 25 49\<rparr>"
proof -
  have h: "1 \<le> len fifty_frames_video" by (simp add: fifty_frames_video_def len_def)
  have l: "last [0..<50] = (49::nat)" "hd [0..<50] = (0::nat)"
    by (simp_all add: last_upt hd_upt)
  show ?thesis
    using padding_counts [OF h] l by (simp add: fifty_frames_video_def len_def)
qed

text \<open>
  The claim as written fails at \<open>N = 50\<close>: the tail padding is not \<open>25 + 50\<close> copies.
\<close>

theorem padding_counts_counterexample:
  "len fifty_frames_video mod 50 = 0 \<and>
   padded_inputs fifty_frames_video \<noteq>
     Inr \<lparr>shape_rest = [27, 48, 3],
          items = replicate 25 0 @ [0..<50] @ replicate (25 + 50) 49\<rparr>"
proof -
  have ne: "items fifty_frames_video \<noteq> []" by (simp add: fifty_frames_video_def)
  have real_len: "length (items (projr (padded_inputs fifty_frames_video))) = 100"
    unfolding padded_inputs_items [OF ne] no_padded_frames_end_cases
    by (simp add: fifty_frames_video_def len_def)
  have "padded_inputs fifty_frames_video \<noteq>
     Inr \<lparr>shape_rest = [27, 48, 3],
          items = replicate 25 0 @ [0..<50] @ replicate (25 + 50) 49\<rparr>"
  proof
    assume "padded_inputs fifty_frames_video =
      Inr \<lparr>shape_rest = [27, 48, 3],
           items = replicate 25 0 @ [0..<50] @ replicate (25 + 50) 49\<rparr>"
    then have "length (items (projr (padded_inputs fifty_frames_video))) = 150" by simp
    with real_len show False by simp
  qed
  then show ?thesis by (simp add: fifty_frames_video_def len_def)
qed

section \<open>Empty input of the scene extractor\<close>

text \<open>
  Claim C10. On an empty prediction sequence \<open>predictions_to_scenes\<close> raises nothing:
  the scan records no scene, the final test \<open>t == 0\<close> fails on \<open>t = -1\<close>, so the
  unbound \<open>i\<close> is never read, and the fallback returns the single interval \<open>[0, -1]\<close>.
\<close>

theorem predictions_to_scenes_empty:
  "sc_scenes (foldl scan_step scan_init (enumerate 0 (binarize [] threshold))) = [] \<and>
   predictions_to_scenes [] threshold = Inr [(0, - 1)]"
  by (simp add: predictions_to_scenes_def binarize_def scan_init_def)

section \<open>Concrete runs\<close>

lemma silent_one_frame_run:
  "predict_frames silent_model new_TransNetV2 one_frame_video =
     (\<lparr>prev_scene = 3, video_path = [], max_frame = 1, scene_number = 2\<rparr>,
      [\<lparr>ev_video = [], ev_start = 0, ev_end = 2, ev_score = 1, ev_index = 1\<rparr>],
      Inr ([0], [0]))"
  by code_simp

lemma short_one_frame_run:
  "predict_frames short_model new_TransNetV2 one_frame_video =
     (\<lparr>prev_scene = 3, video_path = [], max_frame = 1, scene_number = 2\<rparr>,
      [\<lparr>ev_video = [], ev_start = 0, ev_end = 2, ev_score = 1, ev_index = 1\<rparr>],
      Inr ([], []))"
  by code_simp

section \<open>Messages of one video\<close>

lemma predict_frames_chained:
  assumes "predict_frames model self frames = (self', evs, r)"
  shows "chained (prev_scene self) (scene_number self) evs"
proof (cases "length (shape frames) = 4 \<and> tl (shape frames) = input_size")
  case False
  with assms have "evs = []" by (auto simp: predict_frames_def)
  then show ?thesis by simp
next
  case ok: True
  let ?self0 = "self\<lparr>max_frame := int (len frames)\<rparr>"
  show ?thesis
  proof (cases "input_iterator frames")
    case (Inl err)
    with assms ok have "evs = []" by (simp add: predict_frames_def Let_def)
    then show ?thesis by simp
  next
    case (Inr ws)
    obtain self1 evs1 r1 where pw: "process_windows model ?self0 [] ws = (self1, evs1, r1)"
      by (cases "process_windows model ?self0 [] ws")
    from process_windows_emits [OF pw] have e1: "emits ?self0 self1 evs1" .
    show ?thesis
    proof (cases r1)
      case (Inl err)
      with assms ok Inr pw have "evs = evs1" by (simp add: predict_frames_def Let_def)
      with e1 show ?thesis by (simp add: emits_def)
    next
      case preds: (Inr preds)
      obtain self2 e where et: "emit_topic self1 (max_frame self1 + 1) 1 = (self2, e)"
        by (cases "emit_topic self1 (max_frame self1 + 1) 1")
      from assms ok Inr pw preds et have "evs = evs1 @ [e]"
        by (simp add: predict_frames_def Let_def split: if_splits)
      with emits_trans [OF e1 emit_topic_emits [OF et]] show ?thesis
        by (simp add: emits_def)
    qed
  qed
qed

lemma chained_hd:
  "chained p n evs \<Longrightarrow> evs \<noteq> [] \<Longrightarrow> ev_start (hd evs) = p \<and> ev_index (hd evs) = n"
  by (cases evs) simp_all

lemma chained_nth:
  "chained p n evs \<Longrightarrow> Suc k < length evs \<Longrightarrow>
     ev_start (evs ! Suc k) = ev_end (evs ! k) + 1 \<and>
     ev_index (evs ! Suc k) = ev_index (evs ! k) + 1"
proof (induction evs arbitrary: p n k)
  case Nil
  then show ?case by simp
next
  case (Cons e es)
  from Cons.prems(1) have c: "ev_index e = n" "chained (ev_end e + 1) (n + 1) es" by simp_all
  show ?case
  proof (cases k)
    case 0
    with Cons.prems(2) have "es \<noteq> []" by auto
    with chained_hd [OF c(2)] have "ev_start (hd es) = ev_end e + 1" "ev_index (hd es) = n + 1"
      by simp_all
    with 0 c(1) \<open>es \<noteq> []\<close> show ?thesis by (simp add: hd_conv_nth)
  next
    case (Suc j)
    with Cons.prems(2) have "Suc j < length es" by simp
    from Cons.IH [OF c(2) this] Suc show ?thesis by simp
  qed
qed

text \<open>
  Whatever the cursor and the counter are when a video begins, its messages continue
  one another: the first carries them, and each later one starts one frame after the end
  of its predecessor and carries the next index. From cursor 0 and counter 1, the
  state of a freshly constructed controller, the first message has \<open>start = 0\<close> and
  \<open>index = 1\<close>.
\<close>

lemma events_continue:
  assumes "prev_scene self = 0" and "scene_number self = 1"
      and "predict_frames model self frames = (self', evs, r)"
  shows "(1 \<le> len frames \<and> shape_rest frames = [27, 48, 3] \<longrightarrow> evs \<noteq> []) \<and>
         (evs \<noteq> [] \<longrightarrow> ev_start (hd evs) = 0 \<and> ev_index (hd evs) = 1) \<and>
         (\<forall>k. Suc k < length evs \<longrightarrow>
                ev_start (evs ! Suc k) = ev_end (evs ! k) + 1 \<and>
                ev_index (evs ! Suc k) = ev_index (evs ! k) + 1)"
proof -
  from predict_frames_chained [OF assms(3)] assms(1,2) have c: "chained 0 1 evs" by simp
  have "evs \<noteq> []" if "1 \<le> len frames" "shape_rest frames = [27, 48, 3]"
  proof -
    from that have ne: "items frames \<noteq> []" and sh: "shape_rest frames = input_size"
      by (auto simp: len_def input_size_def)
    from predict_frames_run [OF ne sh, of model self] assms(3) show ?thesis
      by (metis Pair_inject snoc_eq_iff_butlast)
  qed
  moreover from chained_hd [OF c]
  have "evs \<noteq> [] \<longrightarrow> ev_start (hd evs) = 0 \<and> ev_index (hd evs) = 1" by simp
  moreover from chained_nth [OF c]
  have "\<forall>k. Suc k < length evs \<longrightarrow>
             ev_start (evs ! Suc k) = ev_end (evs ! k) + 1 \<and>
             ev_index (evs ! Suc k) = ev_index (evs ! k) + 1" by simp
  ultimately show ?thesis by simp
qed

text \<open>
  Claim C4 does not hold of the code for a video that is not the first of its
  controller: the cursor and the counter are those the previous video left. After a
  video of one frame, the first message of the next video has \<open>start = 3\<close> and
  \<open>index = 2\<close>.
\<close>

theorem next_video_first_event:
  "map (\<lambda>e. (ev_start e, ev_index e))
     (fst (snd (predict_video silent_model one_frame_decoder
                  (fst (predict_video silent_model one_frame_decoder new_TransNetV2 ''a''))
                  ''b'')))
   = [(3, 2)]"
  by code_simp

lemma spike_ten_frames_run:
  "predict_frames spike_model new_TransNetV2 ten_frames_video =
     (\<lparr>prev_scene = 12, video_path = [], max_frame = 10, scene_number = 3\<rparr>,
      [\<lparr>ev_video = [], ev_start = 0, ev_end = 5, ev_score = 9 / 10, ev_index = 1\<rparr>,
       \<lparr>ev_video = [], ev_start = 6, ev_end = 11, ev_score = 1, ev_index = 2\<rparr>],
      Inr ([0, 0, 0, 0, 0, 9 / 10, 0, 0, 0, 0], [0, 0, 0, 0, 0, 0, 0, 0, 0, 0]))"
  by code_simp

lemma process_windows_quiet:
  assumes q: "\<forall>fs. \<forall>s \<in> set (fst (model fs)). s \<le> thresh"
  shows "process_windows model self preds ws = (self', evs, r) \<Longrightarrow> evs = []"
proof (induction ws arbitrary: self preds self' evs r)
  case Nil
  then show ?case by simp
next
  case (Cons w ws)
  show ?case
  proof (cases "predict_raw model w")
    case (Inl err)
    with Cons.prems show ?thesis by simp
  next
    case (Inr pr)
    obtain sp ap where pr: "pr = (sp, ap)" by (cases pr)
    from Inr pr have sp: "\<forall>x \<in> set sp. \<forall>s \<in> set x. s \<le> thresh"
      using q by (auto simp: predict_raw_def split: if_splits)
    show ?thesis
    proof (cases "core sp")
      case (Inl err)
      with Cons.prems Inr pr show ?thesis by simp
    next
      case single: (Inr single)
      from single sp have "\<forall>s \<in> set single. s \<le> thresh"
        by (auto simp: core_def py_slice_def split: list.splits
                 dest!: in_set_takeD in_set_dropD)
      then have "np_where_gt single thresh = []"
        by (auto simp: np_where_gt_def filter_empty_conv not_less)
      then have f: "find_frames_crossing_threshold self (int (length preds) * 50) single = (self, [])"
        by (simp add: find_frames_crossing_threshold_def)
      show ?thesis
      proof (cases "core ap")
        case (Inl err)
        with Cons.prems Inr pr single f show ?thesis by simp
      next
        case many: (Inr many)
        obtain s2 evs2 r2 where p:
          "process_windows model self (preds @ [(single, many)]) ws = (s2, evs2, r2)"
          by (cases "process_windows model self (preds @ [(single, many)]) ws")
        from Cons.prems Inr pr single f many p have "evs = evs2" by simp
        with Cons.IH [OF p] show ?thesis by simp
      qed
    qed
  qed
qed

text \<open>
  Claim C6, as amended. After a video of \<open>N \<ge> 1\<close> frames, whatever the scores, the last
  message emitted is the final one, with end \<open>N + 1\<close> and score 1; when no score lies
  above the threshold it is the only message.
\<close>

theorem last_event_is_final:
  assumes "1 \<le> len frames" and "shape_rest frames = [27, 48, 3]"
      and "predict_frames model self frames = (self', evs, r)"
  shows "evs \<noteq> [] \<and> ev_end (last evs) = int (len frames) + 1 \<and> ev_score (last evs) = 1 \<and>
         ((\<forall>fs. \<forall>s \<in> set (fst (model fs)). s \<le> thresh) \<longrightarrow> length evs = 1)"
proof -
  from assms(1,2) have ne: "items frames \<noteq> []" and sh: "shape_rest frames = input_size"
    by (auto simp: len_def input_size_def)
  from predict_frames_run [OF ne sh, of model self] obtain ws self1 evs1 self2 e r2 where
    pw: "process_windows model (self\<lparr>max_frame := int (len frames)\<rparr>) [] ws =
          (self1, evs1, Inr (map (core_of model) ws))" and
    et: "emit_topic self1 (int (len frames) + 1) 1 = (self2, e)" and
    pf: "predict_frames model self frames = (self2, evs1 @ [e], r2)"
    by metis
  from pf assms(3) have evs: "evs = evs1 @ [e]" by simp
  from emit_topic_event [OF et] have "ev_end e = int (len frames) + 1" "ev_score e = 1"
    by simp_all
  moreover have "length evs = 1" if "\<forall>fs. \<forall>s \<in> set (fst (model fs)). s \<le> thresh"
    using process_windows_quiet [OF that pw] evs by simp
  ultimately show ?thesis using evs by simp
qed

theorem last_event_is_final_witness:
  "ev_end (last [\<lparr>ev_video = [], ev_start = 0, ev_end = 2, ev_score = 1, ev_index = 1\<rparr>])
     = int (len one_frame_video) + 1 \<and>
   length [\<lparr>ev_video = [], ev_start = 0, ev_end = 2, ev_score = 1, ev_index = 1\<rparr>] = 1"
proof -
  have a: "1 \<le> len one_frame_video" and b: "shape_rest one_frame_video = [27, 48, 3]"
    by (simp_all add: one_frame_video_def len_def)
  have c: "\<forall>fs. \<forall>s \<in> set (fst (silent_model fs)). s \<le> thresh"
    by (simp add: silent_model_def thresh_def)
  from last_event_is_final [OF a b silent_one_frame_run] c show ?thesis by simp
qed

text \<open>
  The claim as written fails on a video of one frame whose scores are all 0: the only
  message ends at 2, none ends at \<open>N = 1\<close>.
\<close>

theorem last_event_is_final_counterexample:
  "len one_frame_video = 1 \<and>
   map ev_end (fst (snd (predict_frames silent_model new_TransNetV2 one_frame_video))) = [2]"
  by (simp add: silent_one_frame_run) (simp add: one_frame_video_def len_def)

lemma chained_cursor_bounds:
  "chained p n evs \<Longrightarrow> lo \<le> p \<Longrightarrow> p \<le> hi \<Longrightarrow>
   \<forall>e \<in> set evs. lo \<le> ev_end e + 1 \<and> ev_end e + 1 \<le> hi \<Longrightarrow>
     (\<forall>e \<in> set evs. lo \<le> ev_start e \<and> ev_start e \<le> hi) \<and>
     lo \<le> cursor_after p evs \<and> cursor_after p evs \<le> hi"
proof (induction evs arbitrary: p n)
  case Nil
  then show ?case by (simp add: cursor_after_def)
next
  case (Cons e es)
  from Cons.prems(1) have s: "ev_start e = p" and c: "chained (ev_end e + 1) (n + 1) es"
    by simp_all
  from Cons.prems(4) have b: "lo \<le> ev_end e + 1" "ev_end e + 1 \<le> hi"
    and rest: "\<forall>x \<in> set es. lo \<le> ev_end x + 1 \<and> ev_end x + 1 \<le> hi" by simp_all
  from Cons.IH [OF c b rest] s Cons.prems(2,3) show ?case
    by (simp add: cursor_after_Cons)
qed

text \<open>
  Claim C9, as amended. While a video of \<open>N \<ge> 1\<close> frames is processed from cursor 0,
  the cursor \<open>prev_scene\<close> stays between 0 and \<open>50 * \<lceil>N / 50\<rceil>\<close> before and after every
  message of the window loop, hence also before the final message; after the final
  message it is \<open>N + 2\<close>. The cursor before a message is its \<open>start\<close>, the cursor after
  it is its \<open>end + 1\<close>.
\<close>

theorem cursor_range:
  assumes "1 \<le> len frames" and "shape_rest frames = [27, 48, 3]"
      and "prev_scene self = 0"
      and "predict_frames model self frames = (self', evs, r)"
  shows "(\<forall>e \<in> set (butlast evs).
            0 \<le> ev_start e \<and> ev_start e \<le> 50 * (int ((len frames - 1) div 50) + 1) \<and>
            0 \<le> ev_end e + 1 \<and> ev_end e + 1 \<le> 50 * (int ((len frames - 1) div 50) + 1)) \<and>
         0 \<le> ev_start (last evs) \<and>
         ev_start (last evs) \<le> 50 * (int ((len frames - 1) div 50) + 1) \<and>
         prev_scene self' = ev_end (last evs) + 1 \<and>
         prev_scene self' = int (len frames) + 2"
proof -
  let ?hi = "50 * (int ((len frames - 1) div 50) + 1)"
  let ?self0 = "self\<lparr>max_frame := int (len frames)\<rparr>"
  from assms(1,2) have ne: "items frames \<noteq> []" and sh: "shape_rest frames = input_size"
    by (auto simp: len_def input_size_def)
  from predict_frames_run [OF ne sh, of model self] obtain ws self1 evs1 self2 e r2 where
    lw: "length ws = (len frames - 1) div 50 + 1" and
    pw: "process_windows model ?self0 [] ws = (self1, evs1, Inr (map (core_of model) ws))" and
    et: "emit_topic self1 (int (len frames) + 1) 1 = (self2, e)" and
    pf: "predict_frames model self frames = (self2, evs1 @ [e], r2)"
    by metis
  from pf assms(4) have evs: "evs = evs1 @ [e]" and s2: "self' = self2" by simp_all
  from process_windows_emits [OF pw] assms(3)
  have ch: "chained 0 (scene_number self) evs1" and cur: "prev_scene self1 = cursor_after 0 evs1"
    by (simp_all add: emits_def)
  have ends: "\<forall>x \<in> set evs1. 0 \<le> ev_end x + 1 \<and> ev_end x + 1 \<le> ?hi"
  proof
    fix x assume "x \<in> set evs1"
    from process_windows_bounds [OF pw this] lw show "0 \<le> ev_end x + 1 \<and> ev_end x + 1 \<le> ?hi"
      by simp
  qed
  have "(0::int) \<le> ?hi" by simp
  from chained_cursor_bounds [OF ch order_refl this ends]
  have starts: "\<forall>x \<in> set evs1. 0 \<le> ev_start x \<and> ev_start x \<le> ?hi"
    and c1: "0 \<le> cursor_after 0 evs1" "cursor_after 0 evs1 \<le> ?hi" by simp_all
  from emit_topic_emits [OF et] have "ev_start e = prev_scene self1"
    "prev_scene self2 = ev_end e + 1" by (simp_all add: emits_def cursor_after_def)
  moreover from emit_topic_event [OF et] have "ev_end e = int (len frames) + 1" by simp
  ultimately show ?thesis
    using evs s2 starts ends c1 cur by simp
qed

theorem cursor_range_witness:
  "prev_scene new_TransNetV2 = 0 \<and>
   predict_frames spike_model new_TransNetV2 ten_frames_video =
     (\<lparr>prev_scene = 12, video_path = [], max_frame = 10, scene_number = 3\<rparr>,
      [\<lparr>ev_video = [], ev_start = 0, ev_end = 5, ev_score = 9 / 10, ev_index = 1\<rparr>,
       \<lparr>ev_video = [], ev_start = 6, ev_end = 11, ev_score = 1, ev_index = 2\<rparr>],
      Inr ([0, 0, 0, 0, 0, 9 / 10, 0, 0, 0, 0], [0, 0, 0, 0, 0, 0, 0, 0, 0, 0])) \<and>
   (6::int) \<le> 50 * (int ((len ten_frames_video - 1) div 50) + 1) \<and>
   (12::int) = int (len ten_frames_video) + 2"
proof -
  have a: "1 \<le> len ten_frames_video" and b: "shape_rest ten_frames_video = [27, 48, 3]"
    by (simp_all add: ten_frames_video_def len_def)
  have c: "prev_scene new_TransNetV2 = 0" by (simp add: new_TransNetV2_def)
  from cursor_range [OF a b c spike_ten_frames_run] c spike_ten_frames_run
  show ?thesis by simp
qed

text \<open>
  The claim as written fails on a video of one frame: after the final message the cursor
  is 3, above \<open>N = 1\<close>.
\<close>

theorem cursor_range_counterexample:
  "\<not> prev_scene (fst (predict_frames silent_model new_TransNetV2 one_frame_video))
       \<le> int (len one_frame_video)"
  by (simp add: silent_one_frame_run) (simp add: one_frame_video_def len_def)

lemma good_window_items:
  assumes "good_window w"
  shows "\<exists>a. items w = [a] \<and> length (items a) = 100"
proof (cases "items w")
  case Nil
  with assms show ?thesis by (simp add: good_window_def)
next
  case (Cons a rest)
  with assms show ?thesis by (cases rest) (simp_all add: good_window_def)
qed

text \<open>
  Claim C8, as amended. Nothing checks the length of what the scorer returns. Whatever
  the scorer answers, \<open>predict_frames\<close> on \<open>N \<ge> 1\<close> frames of the expected size
  completes without an exception; from each window's answer it keeps the entries at
  positions 25 to 74 that exist, and the stitched sequences are these pieces, cut at
  \<open>N\<close>.
\<close>

theorem scorer_length_unchecked:
  assumes "1 \<le> len frames" and "shape_rest frames = [27, 48, 3]"
  shows "\<exists>ws self' evs.
           input_iterator frames = Inr ws \<and>
           (\<forall>w \<in> set ws. \<exists>a. items w = [a] \<and> length (items a) = 100) \<and>
           predict_frames model self frames =
             (self', evs,
              Inr (take (len frames)
                     (concat (map (\<lambda>w. py_slice 25 75 (fst (model (items (hd (items w)))))) ws)),
                   take (len frames)
                     (concat (map (\<lambda>w. py_slice 25 75 (snd (model (items (hd (items w)))))) ws))))"
proof -
  from assms have ne: "items frames \<noteq> []" and sh: "shape_rest frames = input_size"
    by (auto simp: len_def input_size_def)
  from predict_frames_run [OF ne sh, of model self] obtain ws self2 evs1 e where
    it: "input_iterator frames = Inr ws" and
    gw: "\<forall>w \<in> set ws. good_window w" and
    pf: "predict_frames model self frames =
       (self2, evs1 @ [e],
        Inr (take (len frames) (concat (map (\<lambda>w. fst (core_of model w)) ws)),
             take (len frames) (concat (map (\<lambda>w. snd (core_of model w)) ws))))"
    by metis
  from gw have "\<forall>w \<in> set ws. \<exists>a. items w = [a] \<and> length (items a) = 100"
    using good_window_items by blast
  with it pf show ?thesis by (auto simp: core_of_def)
qed

theorem scorer_length_unchecked_witness:
  "\<exists>ws self' evs.
     input_iterator one_frame_video = Inr ws \<and>
     (\<forall>w \<in> set ws. \<exists>a. items w = [a] \<and> length (items a) = 100) \<and>
     predict_frames short_model new_TransNetV2 one_frame_video =
       (self', evs,
        Inr (take (len one_frame_video)
               (concat (map (\<lambda>w. py_slice 25 75 (fst (short_model (items (hd (items w)))))) ws)),
             take (len one_frame_video)
               (concat (map (\<lambda>w. py_slice 25 75 (snd (short_model (items (hd (items w)))))) ws))))"
  using scorer_length_unchecked [of one_frame_video short_model new_TransNetV2]
  by (simp add: one_frame_video_def len_def)

text \<open>
  The claim as written fails for a scorer that returns 10 scores for a window of 100
  frames: the run completes and returns two empty sequences.
\<close>

theorem scorer_length_unchecked_counterexample:
  "length (fst (short_model (replicate 100 0))) = 10 \<and>
   snd (snd (predict_frames short_model new_TransNetV2 one_frame_video)) = Inr ([], [])"
  by (simp add: short_one_frame_run) (simp add: short_model_def)

text \<open>
  Claim C7 does not hold of the code: \<open>main\<close> uses one controller for all files and
  nothing resets \<open>prev_scene\<close> and \<open>scene_number\<close> between them. With two files of one
  frame each, the message of the second file starts at 3 with index 2; processed alone,
  the same file gives a message that starts at 0 with index 1.
\<close>

theorem second_video_inherits_cursor:
  "main silent_model one_frame_decoder [''a'', ''b''] =
     [(''a'', [\<lparr>ev_video = ''a'', ev_start = 0, ev_end = 2, ev_score = 1, ev_index = 1\<rparr>],
       Inr ([(0, 0)], [(0, 0)])),
      (''b'', [\<lparr>ev_video = ''b'', ev_start = 3, ev_end = 2, ev_score = 1, ev_index = 2\<rparr>],
       Inr ([(0, 0)], [(0, 0)]))] \<and>
   main silent_model one_frame_decoder [''b''] =
     [(''b'', [\<lparr>ev_video = ''b'', ev_start = 0, ev_end = 2, ev_score = 1, ev_index = 1\<rparr>],
       Inr ([(0, 0)], [(0, 0)]))]"
  by code_simp

section \<open>The scene extractor: what the intervals cover\<close>

lemma in_scene_snoc:
  "in_scene (scenes @ [(a, b)]) k = (in_scene scenes k \<or> (a \<le> int k \<and> int k \<le> b))"
  by (auto simp: in_scene_def)

lemma in_scene_Nil: "in_scene [] k = False"
  by (simp add: in_scene_def)

lemma kept_Nil: "kept [] k = False"
  by (simp add: kept_def)

lemma kept_snoc:
  "kept (xs @ [x]) k =
     (kept xs k \<or> (k = length xs \<and> (x = 0 \<or> (xs \<noteq> [] \<and> last xs = 0))))"
proof (cases "k < length xs")
  case True
  then show ?thesis by (auto simp: kept_def nth_append)
next
  case False
  show ?thesis
  proof (cases "k = length xs")
    case True
    then show ?thesis
      by (cases "xs = []") (auto simp: kept_def nth_append last_conv_nth)
  next
    case False
    with \<open>\<not> k < length xs\<close> show ?thesis by (auto simp: kept_def)
  qed
qed

lemma scan_inv_init: "scan_inv [] scan_init"
  by (simp add: scan_inv_def scan_init_def in_scene_Nil kept_Nil)

lemma scan_inv_no_scenes: "scan_inv [] s \<Longrightarrow> sc_scenes s = []"
  by (cases "sc_scenes s") (auto simp: scan_inv_def)

lemma scan_step_zero_zero:
  assumes inv: "scan_inv xs s" and tp: "sc_t_prev s = 0"
  shows "scan_inv (xs @ [0]) (scan_step s (length xs, 0))"
proof -
  have st: "scan_step s (length xs, 0) = s\<lparr>sc_t := 0, sc_t_prev := 0, sc_i := Some (int (length xs))\<rparr>"
    using tp by (simp add: scan_step_def Let_def)
  from inv tp have b: "sc_start s \<le> int (length xs)" by (simp add: scan_inv_def)
  from inv have cov: "\<And>k. (in_scene (sc_scenes s) k \<or>
              (sc_start s \<le> int k \<and> k < length xs)) = kept xs k"
    using tp by (simp add: scan_inv_def)
  have "\<And>k. (in_scene (sc_scenes s) k \<or> (sc_start s \<le> int k \<and> k < Suc (length xs)))
             = (kept xs k \<or> k = length xs)"
    using cov [symmetric] b by (auto simp: less_Suc_eq)
  with inv tp show ?thesis
    unfolding st by (auto simp: scan_inv_def kept_snoc)
qed

lemma scan_step_zero_one:
  assumes inv: "scan_inv xs s" and tp: "sc_t_prev s = 0" and ne: "xs \<noteq> []"
  shows "scan_inv (xs @ [1]) (scan_step s (length xs, 1))"
proof -
  have st: "scan_step s (length xs, 1) =
      s\<lparr>sc_t := 1, sc_t_prev := 1, sc_i := Some (int (length xs)),
        sc_scenes := sc_scenes s @ [(sc_start s, int (length xs))]\<rparr>"
    using tp ne by (simp add: scan_step_def Let_def)
  from inv tp ne have b: "sc_start s < int (length xs)" "0 \<le> sc_start s"
    and l: "last xs = 0" by (simp_all add: scan_inv_def)
  from inv have cov: "\<And>k. (in_scene (sc_scenes s) k \<or>
              (sc_start s \<le> int k \<and> k < length xs)) = kept xs k"
    using tp by (simp add: scan_inv_def)
  have c: "\<And>k. (in_scene (sc_scenes s) k \<or> (sc_start s \<le> int k \<and> int k \<le> int (length xs)))
             = (kept xs k \<or> k = length xs)"
    using cov [symmetric] b by (auto simp: le_less)
  from inv have sc: "\<forall>(a, b) \<in> set (sc_scenes s). 0 \<le> a \<and> a \<le> b \<and> b < int (length xs)"
    and lt: "\<forall>(a, b) \<in> set (sc_scenes s). b < sc_start s"
    and so: "sorted_wrt (\<lambda>p q. snd p < fst q) (sc_scenes s)"
    using tp by (simp_all add: scan_inv_def)
  show ?thesis
    unfolding st scan_inv_def
    using sc lt so b l ne c
    by (auto simp: kept_snoc in_scene_snoc sorted_wrt_append)
qed

lemma scan_step_first_one:
  assumes inv: "scan_inv [] s"
  shows "scan_inv [1] (scan_step s (0, 1))"
proof -
  from inv have tp: "sc_t_prev s = 0" by (simp add: scan_inv_def)
  have st: "scan_step s (0, 1) = s\<lparr>sc_t := 1, sc_t_prev := 1, sc_i := Some 0\<rparr>"
    using tp by (simp add: scan_step_def Let_def)
  from inv have b: "0 \<le> sc_start s" by (simp add: scan_inv_def)
  have k: "kept [1] k = False" for k
    using kept_snoc [of "[]" 1 k] by (simp add: kept_Nil)
  from scan_inv_no_scenes [OF inv] b show ?thesis
    unfolding st scan_inv_def by (simp add: in_scene_Nil k)
qed

lemma scan_step_one_zero:
  assumes inv: "scan_inv xs s" and tp: "sc_t_prev s = 1"
  shows "scan_inv (xs @ [0]) (scan_step s (length xs, 0))"
proof -
  have st: "scan_step s (length xs, 0) =
      s\<lparr>sc_t := 0, sc_t_prev := 0, sc_start := int (length xs), sc_i := Some (int (length xs))\<rparr>"
    using tp by (simp add: scan_step_def Let_def)
  from inv tp have ne: "xs \<noteq> []" and l: "last xs = 1"
    by (auto simp: scan_inv_def split: if_splits)
  from inv have cov: "\<And>k. in_scene (sc_scenes s) k = kept xs k"
    using tp by (simp add: scan_inv_def)
  from inv have sc: "\<forall>(a, b) \<in> set (sc_scenes s). 0 \<le> a \<and> a \<le> b \<and> b < int (length xs)"
    and so: "sorted_wrt (\<lambda>p q. snd p < fst q) (sc_scenes s)"
    by (simp_all add: scan_inv_def)
  have c: "\<And>k. (int (length xs) \<le> int k \<and> k < Suc (length xs)) = (k = length xs)"
    by auto
  show ?thesis
    unfolding st scan_inv_def
    using sc so ne l c
    by (auto simp: kept_snoc cov)
qed

lemma scan_step_one_one:
  assumes inv: "scan_inv xs s" and tp: "sc_t_prev s = 1"
  shows "scan_inv (xs @ [1]) (scan_step s (length xs, 1))"
proof -
  have st: "scan_step s (length xs, 1) =
      s\<lparr>sc_t := 1, sc_t_prev := 1, sc_i := Some (int (length xs))\<rparr>"
    using tp by (simp add: scan_step_def Let_def)
  from inv tp have ne: "xs \<noteq> []" and l: "last xs = 1"
    by (auto simp: scan_inv_def split: if_splits)
  from inv have cov: "\<And>k. in_scene (sc_scenes s) k = kept xs k"
    using tp by (simp add: scan_inv_def)
  from inv have sc: "\<forall>(a, b) \<in> set (sc_scenes s). 0 \<le> a \<and> a \<le> b \<and> b < int (length xs)"
    and so: "sorted_wrt (\<lambda>p q. snd p < fst q) (sc_scenes s)"
    and b: "0 \<le> sc_start s"
    by (simp_all add: scan_inv_def)
  show ?thesis
    unfolding st scan_inv_def
    using sc so ne l b
    by (auto simp: kept_snoc cov)
qed

lemma scan_inv_step:
  assumes inv: "scan_inv xs s" and x: "x = 0 \<or> x = 1" and bits: "set xs \<subseteq> {0, 1}"
  shows "scan_inv (xs @ [x]) (scan_step s (length xs, x))"
proof -
  from inv bits have tp: "sc_t_prev s = 0 \<or> sc_t_prev s = 1"
    by (cases "xs = []") (auto simp: scan_inv_def dest: last_in_set)
  show ?thesis
  proof (cases "sc_t_prev s = 0")
    case True
    show ?thesis
    proof (cases "x = 0")
      case True
      with scan_step_zero_zero [OF inv \<open>sc_t_prev s = 0\<close>] show ?thesis by simp
    next
      case False
      with x have x1: "x = 1" by simp
      show ?thesis
      proof (cases "xs = []")
        case True
        with scan_step_first_one inv x1 show ?thesis by simp
      next
        case False
        with scan_step_zero_one [OF inv \<open>sc_t_prev s = 0\<close>] x1 show ?thesis by simp
      qed
    qed
  next
    case False
    with tp have t1: "sc_t_prev s = 1" by simp
    from x show ?thesis
    proof
      assume "x = 0"
      with scan_step_one_zero [OF inv t1] show ?thesis by simp
    next
      assume "x = 1"
      with scan_step_one_one [OF inv t1] show ?thesis by simp
    qed
  qed
qed

lemma scan_inv_foldl:
  "set xs \<subseteq> {0, 1} \<Longrightarrow> scan_inv xs (foldl scan_step scan_init (enumerate 0 xs))"
proof (induction xs rule: rev_induct)
  case Nil
  show ?case by (simp add: scan_inv_init)
next
  case (snoc x xs)
  from snoc.prems have bits: "set xs \<subseteq> {0, 1}" and x: "x = 0 \<or> x = 1" by auto
  from scan_inv_step [OF snoc.IH [OF bits] x bits] show ?case
    by (simp add: enumerate_append_eq)
qed

lemma binarize_bits: "set (binarize predictions threshold) \<subseteq> {0, 1}"
  by (auto simp: binarize_def)

lemma kept_binarize:
  "kept (binarize predictions threshold) k =
     (k < length predictions \<and>
      (\<not> predictions ! k > threshold \<or> (0 < k \<and> \<not> predictions ! (k - 1) > threshold)))"
  by (auto simp: kept_def binarize_def)

lemma kept_zero:
  "k < length predictions \<Longrightarrow> \<not> predictions ! k > threshold \<Longrightarrow>
     kept (binarize predictions threshold) k"
  by (simp add: kept_binarize)

lemma kept_has_zero:
  assumes "kept (binarize predictions threshold) k"
  shows "\<exists>j < length predictions. \<not> predictions ! j > threshold"
proof -
  from assms have k: "k < length predictions"
    and d: "\<not> predictions ! k > threshold \<or> (0 < k \<and> \<not> predictions ! (k - 1) > threshold)"
    by (simp_all add: kept_binarize)
  from d show ?thesis
  proof
    assume "\<not> predictions ! k > threshold"
    with k show ?thesis by blast
  next
    assume a: "0 < k \<and> \<not> predictions ! (k - 1) > threshold"
    with k have "k - 1 < length predictions" by simp
    with a show ?thesis by blast
  qed
qed

lemma in_scene_witness:
  assumes "(a, b) \<in> set scenes" and "0 \<le> a" and "a \<le> b"
  shows "in_scene scenes (nat a)"
  using assms by (auto simp: in_scene_def)

lemma scan_inv_last:
  "scan_inv xs s \<Longrightarrow> xs \<noteq> [] \<Longrightarrow>
     sc_t s = last xs \<and> sc_t_prev s = last xs \<and> sc_i s = Some (int (length xs) - 1)"
  by (simp add: scan_inv_def)

lemma scan_inv_scenes:
  "scan_inv xs s \<Longrightarrow>
     (\<forall>(a, b) \<in> set (sc_scenes s). 0 \<le> a \<and> a \<le> b \<and> b < int (length xs)) \<and>
     sorted_wrt (\<lambda>p q. snd p < fst q) (sc_scenes s) \<and> 0 \<le> sc_start s"
  by (simp add: scan_inv_def)

lemma scan_inv_open:
  "scan_inv xs s \<Longrightarrow> xs \<noteq> [] \<Longrightarrow> sc_t_prev s = 0 \<Longrightarrow>
     sc_start s < int (length xs) \<and> (\<forall>(a, b) \<in> set (sc_scenes s). b < sc_start s)"
  by (simp add: scan_inv_def)

lemma scan_inv_cover:
  "scan_inv xs s \<Longrightarrow>
     (in_scene (sc_scenes s) k \<or> (sc_t_prev s = 0 \<and> sc_start s \<le> int k \<and> k < length xs))
       = kept xs k"
  unfolding scan_inv_def by blast

lemma cover_binarize:
  assumes "\<And>k. in_scene scenes k = kept (binarize predictions threshold) k"
  shows "\<forall>k < length predictions.
           (\<exists>(a, b) \<in> set scenes. a \<le> int k \<and> int k \<le> b) =
           (\<not> predictions ! k > threshold \<or> (0 < k \<and> \<not> predictions ! (k - 1) > threshold))"
proof (intro allI impI)
  fix k assume "k < length predictions"
  with assms [of k] show "(\<exists>(a, b) \<in> set scenes. a \<le> int k \<and> int k \<le> b) =
           (\<not> predictions ! k > threshold \<or> (0 < k \<and> \<not> predictions ! (k - 1) > threshold))"
    by (simp add: in_scene_def kept_binarize)
qed

text \<open>
  Claim C3, as amended. For \<open>N \<ge> 1\<close> predictions the extractor returns intervals that
  lie in \<open>0..N-1\<close>, are in increasing order and do not overlap. When some frame is not a
  boundary (its score is not above the threshold), the indices covered are exactly the
  non-boundary frames and the frames that directly follow one; the other boundary
  frames are in no interval. When every frame is a boundary, the result is the single
  interval \<open>[0, N-1]\<close>.
\<close>

theorem scenes_cover_non_boundary:
  assumes "1 \<le> length predictions"
  shows "\<exists>scenes.
           predictions_to_scenes predictions threshold = Inr scenes \<and>
           sorted_wrt (\<lambda>p q. snd p < fst q) scenes \<and>
           (\<forall>(a, b) \<in> set scenes. 0 \<le> a \<and> a \<le> b \<and> b \<le> int (length predictions) - 1) \<and>
           (if \<exists>k < length predictions. \<not> predictions ! k > threshold
            then \<forall>k < length predictions.
                   (\<exists>(a, b) \<in> set scenes. a \<le> int k \<and> int k \<le> b) =
                   (\<not> predictions ! k > threshold \<or>
                    (0 < k \<and> \<not> predictions ! (k - 1) > threshold))
            else scenes = [(0, int (length predictions) - 1)])"
proof -
  let ?bits = "binarize predictions threshold"
  let ?s = "foldl scan_step scan_init (enumerate 0 ?bits)"
  let ?n = "length predictions"
  have len: "length ?bits = ?n" by (simp add: binarize_def)
  with assms have ne: "?bits \<noteq> []" by auto
  from scan_inv_foldl [OF binarize_bits] have inv: "scan_inv ?bits ?s" .
  from scan_inv_last [OF inv ne] len
  have t: "sc_t ?s = last ?bits" and tp: "sc_t_prev ?s = last ?bits"
    and i: "sc_i ?s = Some (int ?n - 1)"
    by simp_all
  from scan_inv_scenes [OF inv] len
  have sc: "\<forall>(a, b) \<in> set (sc_scenes ?s). 0 \<le> a \<and> a \<le> b \<and> b < int ?n"
    and so: "sorted_wrt (\<lambda>p q. snd p < fst q) (sc_scenes ?s)"
    and st0: "0 \<le> sc_start ?s"
    by simp_all
  have cov: "(in_scene (sc_scenes ?s) k \<or>
              (sc_t_prev ?s = 0 \<and> sc_start ?s \<le> int k \<and> k < ?n)) = kept ?bits k" for k
    using scan_inv_cover [OF inv, of k] len by simp
  show ?thesis
  proof (cases "last ?bits = 0")
    case True
    let ?scenes = "sc_scenes ?s @ [(sc_start ?s, int ?n - 1)]"
    from tp True have tp0: "sc_t_prev ?s = 0" by simp
    from scan_inv_open [OF inv ne tp0] len have b: "sc_start ?s < int ?n"
      and lt: "\<forall>(a, b) \<in> set (sc_scenes ?s). b < sc_start ?s"
      by simp_all
    have res: "predictions_to_scenes predictions threshold = Inr ?scenes"
      using t True i by (simp add: predictions_to_scenes_def Let_def)
    have sorted: "sorted_wrt (\<lambda>p q. snd p < fst q) ?scenes"
      using so lt by (auto simp: sorted_wrt_append)
    have bounds: "\<forall>(a, b) \<in> set ?scenes. 0 \<le> a \<and> a \<le> b \<and> b \<le> int ?n - 1"
      using sc st0 b by auto
    have c: "in_scene ?scenes k = kept ?bits k" for k
      using cov [of k, symmetric] tp True by (auto simp: in_scene_snoc)
    from True ne len have "\<not> predictions ! (?n - 1) > threshold"
      by (auto simp: last_conv_nth binarize_def split: if_splits)
    with assms have ex: "\<exists>k < ?n. \<not> predictions ! k > threshold"
      by (intro exI [of _ "?n - 1"]) simp
    note cover_binarize [of ?scenes predictions threshold, OF c]
    with res sorted bounds ex show ?thesis by (intro exI [of _ ?scenes]) simp
  next
    case False
    with t have res0: "predictions_to_scenes predictions threshold =
        (if sc_scenes ?s = [] then Inr [(0, int ?n - 1)] else Inr (sc_scenes ?s))"
      by (simp add: predictions_to_scenes_def Let_def len)
    from False tp have c: "in_scene (sc_scenes ?s) k = kept ?bits k" for k
      using cov [of k] by simp
    show ?thesis
    proof (cases "sc_scenes ?s = []")
      case True
      have "\<not> (\<exists>k < ?n. \<not> predictions ! k > threshold)"
      proof
        assume "\<exists>k < ?n. \<not> predictions ! k > threshold"
        then obtain k where "k < ?n" "\<not> predictions ! k > threshold" by blast
        from kept_zero [OF this] c [of k] True show False by (simp add: in_scene_Nil)
      qed
      then have e: "(if \<exists>k < ?n. \<not> predictions ! k > threshold
            then \<forall>k < ?n.
                   (\<exists>(a, b) \<in> set [(0, int ?n - 1)]. a \<le> int k \<and> int k \<le> b) =
                   (\<not> predictions ! k > threshold \<or>
                    (0 < k \<and> \<not> predictions ! (k - 1) > threshold))
            else [(0, int ?n - 1)] = [(0, int ?n - 1)])"
        by (simp only: if_False)
      from res0 True have r: "predictions_to_scenes predictions threshold = Inr [(0, int ?n - 1)]"
        by simp
      have o: "sorted_wrt (\<lambda>p q. snd p < fst q) [(0, int ?n - 1)]" by simp
      have b: "\<forall>(a, b) \<in> set [(0, int ?n - 1)]. 0 \<le> a \<and> a \<le> b \<and> b \<le> int ?n - 1"
        using assms by (cases predictions) simp_all
      from r o b e show ?thesis by (intro exI [of _ "[(0, int ?n - 1)]"] conjI)
    next
      case nonempty: False
      then obtain a b where ab: "(a, b) \<in> set (sc_scenes ?s)"
        by (cases "sc_scenes ?s") auto
      with sc have ab': "0 \<le> a" "a \<le> b" by auto
      from in_scene_witness [OF ab ab'] c have "kept ?bits (nat a)" by simp
      then have ex: "\<exists>k < ?n. \<not> predictions ! k > threshold"
        by (rule kept_has_zero)
      have bounds: "\<forall>(a, b) \<in> set (sc_scenes ?s). 0 \<le> a \<and> a \<le> b \<and> b \<le> int ?n - 1"
        using sc by auto
      note cover_binarize [of "sc_scenes ?s" predictions threshold, OF c]
      with res0 nonempty so bounds ex show ?thesis
        by (intro exI [of _ "sc_scenes ?s"]) simp
    qed
  qed
qed

theorem scenes_cover_non_boundary_witness:
  "\<exists>scenes.
     predictions_to_scenes [0, 1, 1, 0] thresh = Inr scenes \<and>
     sorted_wrt (\<lambda>p q. snd p < fst q) scenes \<and>
     (\<forall>(a, b) \<in> set scenes. 0 \<le> a \<and> a \<le> b \<and> b \<le> int (length [0, 1, 1, 0 :: real]) - 1) \<and>
     (\<forall>k < length [0, 1, 1, 0 :: real].
        (\<exists>(a, b) \<in> set scenes. a \<le> int k \<and> int k \<le> b) =
        (\<not> [0, 1, 1, 0] ! k > thresh \<or> (0 < k \<and> \<not> [0, 1, 1, 0] ! (k - 1) > thresh)))"
proof -
  have h: "1 \<le> length [0, 1, 1, 0 :: real]" by simp
  have ex: "\<exists>k < length [0, 1, 1, 0 :: real]. \<not> [0, 1, 1, 0] ! k > thresh"
    by (intro exI [of _ 0]) (simp add: thresh_def)
  from scenes_cover_non_boundary [OF h, of thresh] ex show ?thesis
    by (simp only: if_True)
qed

text \<open>
  The claim as written fails on \<open>[0, 1, 1, 0]\<close>: the intervals are \<open>[0, 1]\<close> and
  \<open>[3, 3]\<close>, and index 2 is in neither.
\<close>

theorem scenes_cover_non_boundary_counterexample:
  "predictions_to_scenes [0, 1, 1, 0] thresh = Inr [(0, 1), (3, 3)]"
  by code_simp

end
